theory Spec2Isabelle
  imports Main "HOL-Library.Word"
begin

unbundle bit_operations_syntax

section \<open>JavaScript values used by blacklist.js\<close>

text \<open>
  A JavaScript string is a sequence of UTF-16 code units. \<open>charCodeAt\<close> reads one
  code unit as a number between 0 and 65535.
\<close>

type_synonym code_unit = "16 word"
type_synonym jsstring = "code_unit list"

text \<open>String literals of the source are ASCII; \<open>str\<close> writes them as code units.\<close>

definition str :: "string \<Rightarrow> jsstring" where
  "str s = map of_char s"

text \<open>
  The numbers of \<open>hashCode\<close> are integers small enough to be exact as doubles, so they
  are modelled as \<open>int\<close>. \<open>ToInt32\<close> is the conversion the bitwise operators apply to
  their operands and results: reduce modulo \<open>2 ^ 32\<close>, then read as two's complement.
\<close>

definition ToInt32 :: "int \<Rightarrow> int" where
  "ToInt32 x = (let m = x mod 2 ^ 32 in if 2 ^ 31 \<le> m then m - 2 ^ 32 else m)"

text \<open>\<open>a << n\<close>: the left operand as Int32, the shift count masked to five bits.\<close>

definition js_shl :: "int \<Rightarrow> nat \<Rightarrow> int" where
  "js_shl a n = ToInt32 (ToInt32 a * 2 ^ (n mod 32))"

text \<open>\<open>a & b\<close>: both operands as Int32, the result an Int32.\<close>

definition js_and :: "int \<Rightarrow> int \<Rightarrow> int" where
  "js_and a b = ToInt32 (ToInt32 a AND ToInt32 b)"

section \<open>String.prototype.hashCode\<close>

text \<open>
  The body of the \<open>for\<close> loop, with the accumulator \<open>hash\<close> passed along; the list is
  what is left of the string from index \<open>i\<close> on.
\<close>

fun hashCode_loop :: "int \<Rightarrow> jsstring \<Rightarrow> int" where
  "hashCode_loop hash [] = hash"
| "hashCode_loop hash (c # cs) =
     (let character = uint c;
          hash1 = (js_shl hash 5 - hash) + character;
          hash2 = js_and hash1 hash1
      in hashCode_loop hash2 cs)"

definition hashCode :: "jsstring \<Rightarrow> int" where
  "hashCode this = (if length this = 0 then 0 else hashCode_loop 0 this)"

text \<open>
  The hash as the specification words it: a rolling hash in 32-bit arithmetic, left to
  right from 0, with step \<open>((hash << 5) - hash) + charCode\<close>, read as a signed number.
\<close>

definition rolling_step :: "32 word \<Rightarrow> code_unit \<Rightarrow> 32 word" where
  "rolling_step h c = (push_bit 5 h - h) + ucast c"

definition rolling_hash :: "jsstring \<Rightarrow> int" where
  "rolling_hash s = sint (foldl rolling_step 0 s)"

section \<open>Regular expressions: the patterns the service builds\<close>

text \<open>
  The service builds its two patterns with \<open>new RegExp(source, "i")\<close> and only asks
  whether \<open>exec\<close> finds a match (\<open>exec(value) !== null\<close>). The model covers the part of
  the pattern language that word lists of plain words produce: pattern characters,
  the alternation bar and groups (\<open>(?: )\<close> and \<open>( )\<close>, which differ only in what they
  capture). A pattern source that uses any other syntax character (a quantifier, a
  class, an assertion, an escape) has no model.
\<close>

datatype regex =
    Empty
  | Chr code_unit
  | Cat regex regex
  | Alt regex regex

datatype token = TChar code_unit | TBar | TOpen | TClose

text \<open>SyntaxCharacter: one of \<open>^ $ \ . * + ? ( ) [ ] { } |\<close>.\<close>

definition SyntaxCharacter :: "code_unit \<Rightarrow> bool" where
  "SyntaxCharacter c = (c \<in> set (str ''^$.*+?()[]{}|'') \<or> c = 0x5C)"

fun tokenize :: "jsstring \<Rightarrow> token list option" where
  "tokenize [] = Some []"
| "tokenize (c # cs) =
     (if c = 0x7C then map_option (Cons TBar) (tokenize cs)
      else if c = 0x29 then map_option (Cons TClose) (tokenize cs)
      else if c = 0x28 then
        (case cs of
           [] \<Rightarrow> map_option (Cons TOpen) (tokenize cs)
         | q # cs' \<Rightarrow>
            if q = 0x3F then
              (case cs' of
                 [] \<Rightarrow> None
               | k # cs'' \<Rightarrow> if k = 0x3A then map_option (Cons TOpen) (tokenize cs'') else None)
            else map_option (Cons TOpen) (tokenize cs))
      else if SyntaxCharacter c then None
      else map_option (Cons (TChar c)) (tokenize cs))"

text \<open>
  A frame is one Disjunction being read: the alternatives finished so far (none yet,
  or their alternation) and the Alternative being read. A group opens a new frame.
\<close>

type_synonym frame = "regex option \<times> regex"

definition close_frame :: "frame \<Rightarrow> regex" where
  "close_frame f = (case fst f of None \<Rightarrow> snd f | Some a \<Rightarrow> Alt a (snd f))"

fun parse_tokens :: "frame list \<Rightarrow> frame \<Rightarrow> token list \<Rightarrow> regex option" where
  "parse_tokens stk f [] = (if stk = [] then Some (close_frame f) else None)"
| "parse_tokens stk f (TChar c # ts) = parse_tokens stk (fst f, Cat (snd f) (Chr c)) ts"
| "parse_tokens stk f (TBar # ts) = parse_tokens stk (Some (close_frame f), Empty) ts"
| "parse_tokens stk f (TOpen # ts) = parse_tokens (f # stk) (None, Empty) ts"
| "parse_tokens [] f (TClose # ts) = None"
| "parse_tokens (g # stk) f (TClose # ts) =
     parse_tokens stk (fst g, Cat (snd g) (close_frame f)) ts"

text \<open>
  \<open>new RegExp(source, "i")\<close>. The constructor throws a SyntaxError on a source whose
  parentheses do not match; \<open>Unmodelled\<close> is a source outside the modelled language.
\<close>

datatype construction = Compiled (the_regex: regex) | SyntaxError | Unmodelled

definition RegExp_i :: "jsstring \<Rightarrow> construction" where
  "RegExp_i source =
     (case tokenize source of
        None \<Rightarrow> Unmodelled
      | Some ts \<Rightarrow>
         (case parse_tokens [] (None, Empty) ts of
            None \<Rightarrow> SyntaxError
          | Some r \<Rightarrow> Compiled r))"

text \<open>
  Case-insensitive comparison goes through Canonicalize: the character's upper-case
  form when that is a single code unit, except that a character outside ASCII is never
  folded into ASCII. Upper-casing an ASCII character is written out; for the other
  code units it is the Unicode table of the runtime, the parameter \<open>uc\<close> (the result
  of \<open>toUpperCase\<close> on the one-character string).
\<close>

definition toUpperCase1 :: "(code_unit \<Rightarrow> jsstring) \<Rightarrow> code_unit \<Rightarrow> jsstring" where
  "toUpperCase1 uc ch =
     (if ch < 128 then (if 97 \<le> ch \<and> ch \<le> 122 then [ch - 32] else [ch]) else uc ch)"

definition Canonicalize :: "(code_unit \<Rightarrow> jsstring) \<Rightarrow> code_unit \<Rightarrow> code_unit" where
  "Canonicalize uc ch =
     (case toUpperCase1 uc ch of
        [cu] \<Rightarrow> (if 128 \<le> ch \<and> cu < 128 then ch else cu)
      | _ \<Rightarrow> ch)"

text \<open>
  \<open>rests uc r s\<close>: every way \<open>r\<close> can match at the start of \<open>s\<close>, as what is left
  of \<open>s\<close> after the match.
\<close>

fun rests :: "(code_unit \<Rightarrow> jsstring) \<Rightarrow> regex \<Rightarrow> jsstring \<Rightarrow> jsstring list" where
  "rests uc Empty s = [s]"
| "rests uc (Chr c) [] = []"
| "rests uc (Chr c) (x # xs) = (if Canonicalize uc x = Canonicalize uc c then [xs] else [])"
| "rests uc (Cat a b) s = concat (map (rests uc b) (rests uc a s))"
| "rests uc (Alt a b) s = rests uc a s @ rests uc b s"

definition match_here :: "(code_unit \<Rightarrow> jsstring) \<Rightarrow> regex \<Rightarrow> jsstring \<Rightarrow> bool" where
  "match_here uc r s = (rests uc r s \<noteq> [])"

text \<open>
  \<open>reg.exec(value) !== null\<close>: \<open>exec\<close> tries every start index from 0 to the length of
  the string and returns null when none matches.
\<close>

fun exec_matches :: "(code_unit \<Rightarrow> jsstring) \<Rightarrow> regex \<Rightarrow> jsstring \<Rightarrow> bool" where
  "exec_matches uc r [] = match_here uc r []"
| "exec_matches uc r (x # xs) = (match_here uc r (x # xs) \<or> exec_matches uc r xs)"

text \<open>\<open>Array.prototype.join\<close> on an array of strings.\<close>

fun join :: "jsstring \<Rightarrow> jsstring list \<Rightarrow> jsstring" where
  "join sep [] = []"
| "join sep [x] = x"
| "join sep (x # y # ys) = x @ sep @ join sep (y # ys)"

section \<open>The service BlackListValidator\<close>

text \<open>
  The variables of the service closure, and the lines \<open>$log.info\<close> has written.
  \<open>checkedTerms\<close> is an object used as a dictionary from hash codes to verdicts.
\<close>

record validator =
  blacklist :: "jsstring list"
  blacklistReg :: regex
  whitelist :: "jsstring list"
  whitelistReg :: regex
  checkedTerms :: "int \<rightharpoonup> bool"
  info :: "jsstring list"

definition init :: validator where
  "init =
     \<lparr> blacklist = [],
       blacklistReg = the_regex (RegExp_i (str [])),
       whitelist = [],
       whitelistReg = the_regex (RegExp_i (str [])),
       checkedTerms = Map.empty,
       info = [] \<rparr>"

definition log :: "jsstring \<Rightarrow> validator \<Rightarrow> validator" where
  "log t st = st\<lparr>info := info st @ [str ''[BlackListValidator] '' @ t]\<rparr>"

text \<open>
  The body of the file the service fetches: \<open>{blacklist: [...], whitelist: [...]}\<close>,
  either field possibly absent.
\<close>

record response =
  res_blacklist :: "jsstring list option"
  res_whitelist :: "jsstring list option"

text \<open>\<open>x || []\<close> on an array or \<open>undefined\<close>.\<close>

definition or_empty :: "jsstring list option \<Rightarrow> jsstring list" where
  "or_empty x = (case x of None \<Rightarrow> [] | Some l \<Rightarrow> l)"

definition pattern_source :: "jsstring list \<Rightarrow> jsstring" where
  "pattern_source l = str ''(?:'' @ join (str ''|'') l @ str '')''"

text \<open>
  The success handler of \<open>$http.get\<close>, statement by statement. When a constructor
  throws, the handler ends there and the assignments made so far stay: \<open>Threw\<close> holds
  the service as the exception leaves it. \<open>Outside\<close>: a pattern source is outside the
  modelled language.
\<close>

datatype outcome = Completed (state_after: validator) | Threw (state_after: validator) | Outside

definition load_success :: "response \<Rightarrow> validator \<Rightarrow> outcome" where
  "load_success res st =
     (let st1 = st\<lparr>blacklist := blacklist st @ or_empty (res_blacklist res)\<rparr>;
          st2 = st1\<lparr>whitelist := whitelist st1 @ or_empty (res_whitelist res)\<rparr>
      in case RegExp_i (pattern_source (blacklist st2)) of
           Unmodelled \<Rightarrow> Outside
         | SyntaxError \<Rightarrow> Threw st2
         | Compiled r \<Rightarrow>
            (let st3 = st2\<lparr>blacklistReg := r\<rparr>
             in case RegExp_i (pattern_source (whitelist st3)) of
                  Unmodelled \<Rightarrow> Outside
                | SyntaxError \<Rightarrow> Threw st3
                | Compiled r' \<Rightarrow>
                   Completed (st3\<lparr>whitelistReg := r', checkedTerms := Map.empty\<rparr>)))"

text \<open>The error handler of \<open>$http.get\<close>.\<close>

definition load_error :: "validator \<Rightarrow> validator" where
  "load_error st =
     log (str ''Blacklist-File not found. Please ensure, that you have the file ''
          @ [39] @ str ''data/blacklist.json'' @ [39]
          @ str '' present in your application root'') st"

text \<open>
  \<open>check\<close>. The argument is \<open>None\<close> for \<open>undefined\<close> or \<open>null\<close>; \<open>!value\<close> holds for
  these and for the empty string. The last \<open>log\<close> call passes
  \<open>("'" + value + "' : " + result) ? 'blachlisted' : 'whitelisted'\<close>: the conditional
  binds weaker than \<open>+\<close>, and a string is truthy when it is not empty.
\<close>

definition check :: "(code_unit \<Rightarrow> jsstring) \<Rightarrow> jsstring option \<Rightarrow> validator \<Rightarrow> bool \<times> validator" where
  "check uc value st =
     (case value of
        None \<Rightarrow> (True, st)
      | Some v \<Rightarrow>
         if v = [] \<or> blacklist st = [] then (True, st)
         else
           (case checkedTerms st (hashCode v) of
              Some old \<Rightarrow> (old, log (str ''Returning old cached value'') st)
            | None \<Rightarrow>
               (let blacklisted = exec_matches uc (blacklistReg st) v;
                    result = (if blacklisted then exec_matches uc (whitelistReg st) v else True);
                    st1 = st\<lparr>checkedTerms := (checkedTerms st)(hashCode v \<mapsto> result)\<rparr>;
                    shown = [39] @ v @ [39] @ str '' : '' @ (if result then str ''true'' else str ''false'')
                in (result, log (if shown \<noteq> [] then str ''blachlisted'' else str ''whitelisted'') st1))))"

text \<open>Several calls of \<open>check\<close> in a row, with no load in between.\<close>

fun checks :: "(code_unit \<Rightarrow> jsstring) \<Rightarrow> jsstring option list \<Rightarrow> validator \<Rightarrow> bool list \<times> validator" where
  "checks uc [] st = ([], st)"
| "checks uc (v # vs) st =
     (let (r, st1) = check uc v st; (rs, st2) = checks uc vs st1 in (r # rs, st2))"

text \<open>
  A table for closed examples: no code unit outside ASCII has an upper-case form of
  its own. The examples use ASCII text only, where the table is never read.
\<close>

definition plain_table :: "code_unit \<Rightarrow> jsstring" where
  "plain_table ch = [ch]"

section \<open>What the specification says a pattern does\<close>

text \<open>
  The specification describes a compiled pattern as a case-insensitive search for any
  fragment as a substring. \<open>starts_with_ci uc f s\<close>: the fragment \<open>f\<close> stands at the
  start of \<open>s\<close>, up to case; \<open>contains_ci uc f s\<close>: it stands somewhere in \<open>s\<close>.
\<close>

fun starts_with_ci :: "(code_unit \<Rightarrow> jsstring) \<Rightarrow> jsstring \<Rightarrow> jsstring \<Rightarrow> bool" where
  "starts_with_ci uc [] s = True"
| "starts_with_ci uc (c # cs) [] = False"
| "starts_with_ci uc (c # cs) (x # xs) =
     (Canonicalize uc x = Canonicalize uc c \<and> starts_with_ci uc cs xs)"

fun contains_ci :: "(code_unit \<Rightarrow> jsstring) \<Rightarrow> jsstring \<Rightarrow> jsstring \<Rightarrow> bool" where
  "contains_ci uc f [] = starts_with_ci uc f []"
| "contains_ci uc f (x # xs) = (starts_with_ci uc f (x # xs) \<or> contains_ci uc f xs)"

text \<open>A plain fragment: no syntax character of the pattern language in it.\<close>

definition plain :: "jsstring \<Rightarrow> bool" where
  "plain f = list_all (\<lambda>c. \<not> SyntaxCharacter c) f"

text \<open>
  What the parser makes of plain fragments: \<open>lit r f\<close> is \<open>r\<close> followed by the
  characters of \<open>f\<close>; \<open>alt_tokens\<close> are the tokens of fragments joined by bars, and
  \<open>alt_frame\<close> the frame the parser holds after reading them.
\<close>

definition lit :: "regex \<Rightarrow> jsstring \<Rightarrow> regex" where
  "lit r f = foldl (\<lambda>a c. Cat a (Chr c)) r f"

fun alt_tokens :: "jsstring list \<Rightarrow> token list" where
  "alt_tokens [] = []"
| "alt_tokens [f] = map TChar f"
| "alt_tokens (f # g # gs) = map TChar f @ TBar # alt_tokens (g # gs)"

fun alt_frame :: "regex option \<Rightarrow> jsstring list \<Rightarrow> frame" where
  "alt_frame a [] = (a, Empty)"
| "alt_frame a [f] = (a, lit Empty f)"
| "alt_frame a (f # g # gs) = alt_frame (Some (close_frame (a, lit Empty f))) (g # gs)"

text \<open>
  \<open>cache_hit value st\<close>: a call \<open>check(value)\<close> in state \<open>st\<close> passes the guard and
  finds \<open>old !== undefined\<close>, so that it returns the cached verdict.
\<close>

definition cache_hit :: "jsstring option \<Rightarrow> validator \<Rightarrow> bool" where
  "cache_hit value st =
     (case value of
        None \<Rightarrow> False
      | Some v \<Rightarrow> v \<noteq> [] \<and> blacklist st \<noteq> [] \<and> checkedTerms st (hashCode v) \<noteq> None)"

text \<open>The two word lists of the specification's scenarios, as the loader delivers them.\<close>

definition badword_lists :: response where
  "badword_lists = \<lparr> res_blacklist = Some [str ''badword''], res_whitelist = Some [] \<rparr>"

definition badass_lists :: response where
  "badass_lists = \<lparr> res_blacklist = Some [str ''bad''], res_whitelist = Some [str ''badass''] \<rparr>"

text \<open>Two further files: each has one field only, the other is absent.\<close>

definition badword_only :: response where
  "badword_only = \<lparr> res_blacklist = Some [str ''badword''], res_whitelist = None \<rparr>"

definition that_only :: response where
  "that_only = \<lparr> res_blacklist = None, res_whitelist = Some [str ''that''] \<rparr>"

text \<open>A file whose blacklist fragment \<open>:(\<close> leaves the pattern's parentheses unmatched.\<close>

definition smiley_lists :: response where
  "smiley_lists = \<lparr> res_blacklist = Some [str '':(''], res_whitelist = Some [str ''that''] \<rparr>"





section \<open>The hash in 32-bit arithmetic\<close>

lemma wrap_shift:
  fixes m :: int
  assumes "0 \<le> m" "m < 4294967296"
  shows "(m + 2147483648) mod 4294967296 - 2147483648 = (if 2147483648 \<le> m then m - 4294967296 else m)"
proof (cases "2147483648 \<le> m")
  case True
  have "(m + 2147483648) mod 4294967296 = m - 2147483648"
    by (rule int_mod_pos_eq [where q = 1]) (use True assms in simp_all)
  with True show ?thesis by simp
next
  case False
  have "(m + 2147483648) mod 4294967296 = m + 2147483648"
    by (rule int_mod_pos_eq [where q = 0]) (use False assms in simp_all)
  with False show ?thesis by simp
qed

lemma ToInt32_sint: "ToInt32 x = sint (word_of_int x :: 32 word)"
proof -
  have "sint (word_of_int x :: 32 word) = (x + 2147483648) mod 4294967296 - 2147483648"
    by (simp add: sint_sbintrunc' signed_take_bit_eq_take_bit_shift take_bit_eq_mod)
  also have "\<dots> = (x mod 4294967296 + 2147483648) mod 4294967296 - 2147483648"
    by (simp add: mod_add_left_eq)
  also have "\<dots> = ToInt32 x"
    unfolding ToInt32_def Let_def using wrap_shift [of "x mod 4294967296"] by simp
  finally show ?thesis by simp
qed

lemma js_shl_sint: "js_shl (sint (w :: 32 word)) 5 = sint (push_bit 5 w)"
  by (simp add: js_shl_def ToInt32_sint push_bit_eq_mult)

lemma js_and_same: "js_and a a = ToInt32 a"
  by (simp add: js_and_def ToInt32_sint)

lemma step_sint:
  "js_and ((js_shl (sint (w :: 32 word)) 5 - sint w) + uint c) ((js_shl (sint w) 5 - sint w) + uint c)
     = sint (rolling_step w c)"
  by (simp add: js_and_same js_shl_sint ToInt32_sint rolling_step_def)

lemma hashCode_loop_sint:
  "hashCode_loop (sint (w :: 32 word)) s = sint (foldl rolling_step w s)"
proof (induction s arbitrary: w)
  case Nil
  show ?case by simp
next
  case (Cons c cs)
  show ?case using Cons.IH [of "rolling_step w c"]
    by (simp add: Let_def step_sint)
qed

text \<open>
  The numbers of the loop stay far below \<open>2 ^ 53\<close>, where doubles hold every integer:
  the model's integers are the program's numbers.
\<close>

lemma ToInt32_range: "- 2147483648 \<le> ToInt32 x \<and> ToInt32 x < 2147483648"
  using sint_ge [of "word_of_int x :: 32 word"] sint_lt [of "word_of_int x :: 32 word"]
  by (simp add: ToInt32_sint)

lemma hash_step_exact:
  assumes "- 2147483648 \<le> hash" and "hash < 2147483648"
  shows "\<bar>(js_shl hash 5 - hash) + uint (c :: code_unit)\<bar> < 2 ^ 53"
proof -
  have s: "- 2147483648 \<le> js_shl hash 5" "js_shl hash 5 < 2147483648"
    using ToInt32_range [of "ToInt32 hash * 2 ^ (5 mod 32)"] by (simp_all add: js_shl_def)
  have c: "uint c < 65536"
    using uint_lt2p [of c] by simp
  have "\<bar>(js_shl hash 5 - hash) + uint c\<bar> < 9007199254740992"
    using assms s c uint_ge_0 [of c] by linarith
  then show ?thesis by simp
qed

lemma hashCode_loop_range:
  "- 2147483648 \<le> hash \<Longrightarrow> hash < 2147483648 \<Longrightarrow>
   - 2147483648 \<le> hashCode_loop hash s \<and> hashCode_loop hash s < 2147483648"
proof (induction s arbitrary: hash)
  case Nil
  then show ?case by simp
next
  case (Cons c cs)
  let ?h = "js_and ((js_shl hash 5 - hash) + uint c) ((js_shl hash 5 - hash) + uint c)"
  have "- 2147483648 \<le> ?h \<and> ?h < 2147483648"
    using ToInt32_range [of "(js_shl hash 5 - hash) + uint c"] by (simp add: js_and_same)
  then show ?case using Cons.IH [of ?h] by (simp add: Let_def)
qed

text \<open>
  C8. For every string, \<open>hashCode\<close> is the 32-bit signed rolling hash over the code
  units, left to right from 0, with step \<open>((hash << 5) - hash) + charCode\<close> cut to 32
  bits; the empty string hashes to 0.
\<close>

theorem hashCode_is_rolling_hash: "hashCode s = rolling_hash s \<and> hashCode [] = 0"
  using hashCode_loop_sint [of 0 s] by (simp add: hashCode_def rolling_hash_def)

section \<open>Patterns compiled from plain fragments\<close>

lemma syntax_codes:
  "SyntaxCharacter c \<longleftrightarrow> c \<in> {0x5E, 0x24, 0x2E, 0x2A, 0x2B, 0x3F, 0x28, 0x29, 0x5B, 0x5D, 0x7B, 0x7D, 0x7C, 0x5C}"
  by (auto simp: SyntaxCharacter_def str_def)

lemma tokenize_plain_char:
  "\<not> SyntaxCharacter c \<Longrightarrow> tokenize (c # cs) = map_option (Cons (TChar c)) (tokenize cs)"
  by (auto simp: syntax_codes)

lemma tokenize_plain:
  "plain f \<Longrightarrow> tokenize (f @ rest) = map_option ((@) (map TChar f)) (tokenize rest)"
proof (induction f)
  case Nil
  show ?case by (simp add: option.map_ident)
next
  case (Cons c cs)
  then have c: "\<not> SyntaxCharacter c" and cs: "plain cs" by (simp_all add: plain_def)
  show ?case using Cons.IH [OF cs] tokenize_plain_char [OF c, of "cs @ rest"]
    by (simp add: option.map_comp comp_def del: tokenize.simps)
qed

lemma tokenize_bar: "tokenize (str ''|'' @ rest) = map_option (Cons TBar) (tokenize rest)"
  by (simp add: str_def)

lemma tokenize_close: "tokenize (str '')'') = Some [TClose]"
  by (simp add: str_def)

lemma tokenize_open: "tokenize (str ''(?:'' @ rest) = map_option (Cons TOpen) (tokenize rest)"
  by (simp add: str_def)

lemma tokenize_join:
  "list_all plain fs \<Longrightarrow>
   tokenize (join (str ''|'') fs @ rest) = map_option ((@) (alt_tokens fs)) (tokenize rest)"
proof (induction fs rule: alt_tokens.induct)
  case 1
  show ?case by (simp add: option.map_ident)
next
  case (2 f)
  then show ?case by (simp add: tokenize_plain)
next
  case (3 f g gs)
  then have f: "plain f" and r: "list_all plain (g # gs)" by simp_all
  show ?case using "3.IH" [OF r] 
    by (simp add: tokenize_plain [OF f] tokenize_bar option.map_comp comp_def del: tokenize.simps)
qed

lemma tokenize_pattern_source:
  "list_all plain fs \<Longrightarrow> tokenize (pattern_source fs) = Some (TOpen # alt_tokens fs @ [TClose])"
  unfolding pattern_source_def
  by (simp add: tokenize_open tokenize_join tokenize_close del: tokenize.simps)

lemma parse_chars:
  "parse_tokens stk (a, cur) (map TChar f @ ts) = parse_tokens stk (a, lit cur f) ts"
  by (induction f arbitrary: cur) (simp_all add: lit_def)

lemma parse_alt_tokens:
  "fs \<noteq> [] \<Longrightarrow>
   parse_tokens stk (a, Empty) (alt_tokens fs @ ts) = parse_tokens stk (alt_frame a fs) ts"
proof (induction fs arbitrary: a rule: alt_tokens.induct)
  case 1
  then show ?case by simp
next
  case (2 f)
  show ?case by (simp add: parse_chars)
next
  case (3 f g gs)
  show ?case using "3.IH" [of "Some (close_frame (a, lit Empty f))"]
    by (simp add: parse_chars)
qed

lemma close_frame_simps:
  "close_frame (None, r) = r" "close_frame (Some a, r) = Alt a r"
  by (simp_all add: close_frame_def)

lemma RegExp_i_pattern_source:
  assumes "list_all plain fs" and "fs \<noteq> []"
  shows "RegExp_i (pattern_source fs) = Compiled (Cat Empty (close_frame (alt_frame None fs)))"
  using parse_alt_tokens [OF assms(2), of "[(None, Empty)]" None "[TClose]"]
  by (simp add: RegExp_i_def tokenize_pattern_source [OF assms(1)] close_frame_simps)

lemma RegExp_i_pattern_source_Nil: "RegExp_i (pattern_source []) = Compiled (Cat Empty Empty)"
  by (simp add: RegExp_i_def pattern_source_def str_def close_frame_def)

lemma RegExp_i_empty: "RegExp_i (str []) = Compiled Empty"
  by (simp add: RegExp_i_def str_def close_frame_def)


lemma match_here_Empty: "match_here uc Empty s"
  by (simp add: match_here_def)

lemma match_here_Cat:
  "match_here uc (Cat a b) s \<longleftrightarrow> (\<exists>t\<in>set (rests uc a s). match_here uc b t)"
  by (auto simp: match_here_def)

lemma match_here_Alt:
  "match_here uc (Alt a b) s \<longleftrightarrow> match_here uc a s \<or> match_here uc b s"
  by (simp add: match_here_def)

lemma rests_Cat_Chr:
  "t \<in> set (rests uc (Cat a (Chr c)) s) \<longleftrightarrow>
     (\<exists>x. x # t \<in> set (rests uc a s) \<and> Canonicalize uc x = Canonicalize uc c)"
proof -
  have chr: "t \<in> set (rests uc (Chr c) u) \<longleftrightarrow>
      (\<exists>x. u = x # t \<and> Canonicalize uc x = Canonicalize uc c)" for u
    by (cases u) auto
  show ?thesis by (auto simp: chr)
qed

lemma starts_with_ci_Cons:
  "starts_with_ci uc (c # cs) u \<longleftrightarrow>
     (\<exists>x t. u = x # t \<and> Canonicalize uc x = Canonicalize uc c \<and> starts_with_ci uc cs t)"
  by (cases u) auto

lemma match_here_lit:
  "match_here uc (lit cur f) s \<longleftrightarrow> (\<exists>u\<in>set (rests uc cur s). starts_with_ci uc f u)"
proof (induction f arbitrary: cur)
  case Nil
  have "(rests uc cur s \<noteq> []) = (\<exists>u. u \<in> set (rests uc cur s))"
    by (cases "rests uc cur s") (simp, simp add: exI [of _ "hd (rests uc cur s)"])
  then show ?case by (simp add: lit_def match_here_def Bex_def)
next
  case (Cons c cs)
  have "lit cur (c # cs) = lit (Cat cur (Chr c)) cs" by (simp add: lit_def)
  then have "match_here uc (lit cur (c # cs)) s \<longleftrightarrow>
      (\<exists>t\<in>set (rests uc (Cat cur (Chr c)) s). starts_with_ci uc cs t)"
    using Cons.IH [of "Cat cur (Chr c)"] by simp
  also have "\<dots> \<longleftrightarrow>
      (\<exists>t x. x # t \<in> set (rests uc cur s) \<and> Canonicalize uc x = Canonicalize uc c
             \<and> starts_with_ci uc cs t)"
    unfolding Bex_def rests_Cat_Chr by blast
  also have "\<dots> \<longleftrightarrow> (\<exists>u\<in>set (rests uc cur s). starts_with_ci uc (c # cs) u)"
    unfolding Bex_def starts_with_ci_Cons by blast
  finally show ?case .
qed

lemma match_here_lit_Empty: "match_here uc (lit Empty f) s \<longleftrightarrow> starts_with_ci uc f s"
  by (simp add: match_here_lit)

lemma match_here_alt_frame:
  "fs \<noteq> [] \<Longrightarrow>
   match_here uc (close_frame (alt_frame a fs)) s \<longleftrightarrow>
     (case a of None \<Rightarrow> False | Some r \<Rightarrow> match_here uc r s)
     \<or> list_ex (\<lambda>f. starts_with_ci uc f s) fs"
proof (induction a fs rule: alt_frame.induct)
  case (1 a)
  then show ?case by simp
next
  case (2 a f)
  show ?case
    by (cases a) (simp_all add: close_frame_simps match_here_Alt match_here_lit_Empty)
next
  case (3 a f g gs)
  show ?case using "3.IH"
    by (cases a) (auto simp: close_frame_simps match_here_Alt match_here_lit_Empty)
qed


lemma exec_matches_list_ex:
  assumes "\<And>s. match_here uc r s = list_ex (\<lambda>f. starts_with_ci uc f s) fs"
  shows "exec_matches uc r T = list_ex (\<lambda>f. contains_ci uc f T) fs"
proof (induction T)
  case Nil
  show ?case by (simp add: assms list_ex_iff)
next
  case (Cons x xs)
  then show ?case by (auto simp: assms list_ex_iff)
qed

lemma exec_matches_always:
  assumes "\<And>s. match_here uc r s"
  shows "exec_matches uc r T"
  by (cases T) (simp_all add: assms)

lemma compiled_pattern_matches:
  assumes "list_all plain fs" and "fs \<noteq> []" and "RegExp_i (pattern_source fs) = Compiled r"
  shows "exec_matches uc r T = list_ex (\<lambda>f. contains_ci uc f T) fs"
proof -
  have r: "r = Cat Empty (close_frame (alt_frame None fs))"
    using RegExp_i_pattern_source [OF assms(1,2)] assms(3) by simp
  have "match_here uc r s = list_ex (\<lambda>f. starts_with_ci uc f s) fs" for s
    unfolding r by (simp add: match_here_Cat match_here_alt_frame [OF assms(2)])
  then show ?thesis by (rule exec_matches_list_ex)
qed

lemma empty_pattern_matches:
  "RegExp_i (pattern_source []) = Compiled r \<Longrightarrow> exec_matches uc r T"
  by (rule exec_matches_always) (auto simp: RegExp_i_pattern_source_Nil match_here_def)

text \<open>The two searches say what their names say.\<close>

lemma starts_with_ci_iff:
  "starts_with_ci uc f s \<longleftrightarrow>
     (\<exists>p post. s = p @ post \<and> map (Canonicalize uc) p = map (Canonicalize uc) f)"
proof (induction f arbitrary: s)
  case Nil
  show ?case by simp
next
  case (Cons c cs)
  show ?case
  proof
    assume "starts_with_ci uc (c # cs) s"
    then obtain x t where s: "s = x # t" "Canonicalize uc x = Canonicalize uc c" "starts_with_ci uc cs t"
      unfolding starts_with_ci_Cons by blast
    then obtain p post where "t = p @ post" "map (Canonicalize uc) p = map (Canonicalize uc) cs"
      using Cons.IH [of t] by blast
    with s have "s = (x # p) @ post \<and> map (Canonicalize uc) (x # p) = map (Canonicalize uc) (c # cs)"
      by simp
    then show "\<exists>p post. s = p @ post \<and> map (Canonicalize uc) p = map (Canonicalize uc) (c # cs)"
      by blast
  next
    assume "\<exists>p post. s = p @ post \<and> map (Canonicalize uc) p = map (Canonicalize uc) (c # cs)"
    then obtain p post where p: "s = p @ post" "map (Canonicalize uc) p = map (Canonicalize uc) (c # cs)"
      by blast
    from p(2) obtain y q where q: "p = y # q" by (cases p) simp_all
    with p have 1: "s = y # (q @ post)" and 2: "Canonicalize uc y = Canonicalize uc c"
      and 3: "map (Canonicalize uc) q = map (Canonicalize uc) cs" by simp_all
    from 3 have "starts_with_ci uc cs (q @ post)" using Cons.IH [of "q @ post"] by blast
    with 1 2 show "starts_with_ci uc (c # cs) s" by simp
  qed
qed

lemma contains_ci_iff:
  "contains_ci uc f T \<longleftrightarrow>
     (\<exists>pre p post. T = pre @ p @ post \<and> map (Canonicalize uc) p = map (Canonicalize uc) f)"
proof (induction T)
  case Nil
  show ?case by (simp add: starts_with_ci_iff)
next
  case (Cons x xs)
  show ?case
  proof
    assume "contains_ci uc f (x # xs)"
    then consider "starts_with_ci uc f (x # xs)" | "contains_ci uc f xs" by auto
    then show "\<exists>pre p post. x # xs = pre @ p @ post \<and> map (Canonicalize uc) p = map (Canonicalize uc) f"
    proof cases
      case 1
      then obtain p post where "x # xs = p @ post" "map (Canonicalize uc) p = map (Canonicalize uc) f"
        unfolding starts_with_ci_iff by blast
      then have "x # xs = [] @ p @ post \<and> map (Canonicalize uc) p = map (Canonicalize uc) f" by simp
      then show ?thesis by blast
    next
      case 2
      then obtain pre p post where "xs = pre @ p @ post" "map (Canonicalize uc) p = map (Canonicalize uc) f"
        using Cons.IH by blast
      then have "x # xs = (x # pre) @ p @ post \<and> map (Canonicalize uc) p = map (Canonicalize uc) f"
        by simp
      then show ?thesis by blast
    qed
  next
    assume "\<exists>pre p post. x # xs = pre @ p @ post \<and> map (Canonicalize uc) p = map (Canonicalize uc) f"
    then obtain pre p post where p: "x # xs = pre @ p @ post"
      "map (Canonicalize uc) p = map (Canonicalize uc) f" by blast
    show "contains_ci uc f (x # xs)"
    proof (cases pre)
      case Nil
      with p have "x # xs = p @ post" by simp
      with p(2) have "starts_with_ci uc f (x # xs)" unfolding starts_with_ci_iff by blast
      then show ?thesis by simp
    next
      case (Cons y pre')
      with p have "xs = pre' @ p @ post" by simp
      with p(2) have "contains_ci uc f xs" using Cons.IH by blast
      then show ?thesis by simp
    qed
  qed
qed

section \<open>The verdict of check\<close>

text \<open>
  C4. When the text is absent or empty, or the blacklist is empty, \<open>check\<close> returns
  true at once and leaves the service as it was: nothing is written to the result
  cache (and nothing is logged).
\<close>

theorem check_short_circuit:
  "value = None \<or> value = Some [] \<or> blacklist st = [] \<Longrightarrow> check uc value st = (True, st)"
  by (auto simp: check_def split: option.splits)

theorem check_short_circuit_witness:
  "check plain_table None init = (True, init)
   \<and> check plain_table (Some []) init = (True, init)
   \<and> check plain_table (Some (str ''badword'')) init = (True, init)"
  using check_short_circuit [of None init plain_table]
        check_short_circuit [of "Some []" init plain_table]
        check_short_circuit [of "Some (str ''badword'')" init plain_table]
  by (simp add: init_def)

text \<open>
  C9. The error handler of the load leaves the blacklist, the whitelist, both
  patterns and the result cache as they were; it only adds one line to the log. Any
  later \<open>check\<close> gives the verdict, and the cache, it would have given without the
  failed load.
\<close>

theorem load_error_changes_nothing:
  "blacklist (load_error st) = blacklist st
   \<and> whitelist (load_error st) = whitelist st
   \<and> blacklistReg (load_error st) = blacklistReg st
   \<and> whitelistReg (load_error st) = whitelistReg st
   \<and> checkedTerms (load_error st) = checkedTerms st
   \<and> (\<exists>msg. load_error st = st\<lparr>info := info st @ [msg]\<rparr>)
   \<and> fst (check uc value (load_error st)) = fst (check uc value st)
   \<and> checkedTerms (snd (check uc value (load_error st))) = checkedTerms (snd (check uc value st))"
  by (auto simp: load_error_def log_def check_def Let_def split: option.splits)

section \<open>Loading the lists\<close>

text \<open>
  \<open>load_success\<close> returns \<open>Completed\<close> when the success handler runs to its end. For
  lists of plain fragments it always does (\<open>load_success_plain\<close>).
\<close>

lemma plain_examples:
  "plain (str ''badword'')" "plain (str ''bad'')" "plain (str ''badass'')" "plain (str ''that'')"
  by (simp_all add: plain_def str_def syntax_codes)

lemma load_success_Completed:
  assumes "load_success res st = Completed st'"
  shows "blacklist st' = blacklist st @ or_empty (res_blacklist res)"
    and "whitelist st' = whitelist st @ or_empty (res_whitelist res)"
    and "RegExp_i (pattern_source (blacklist st')) = Compiled (blacklistReg st')"
    and "RegExp_i (pattern_source (whitelist st')) = Compiled (whitelistReg st')"
    and "checkedTerms st' = Map.empty"
    and "info st' = info st"
  using assms by (auto simp: load_success_def Let_def split: construction.splits)

lemma load_success_plain:
  assumes "list_all plain (blacklist st @ or_empty (res_blacklist res))"
      and "list_all plain (whitelist st @ or_empty (res_whitelist res))"
  shows "\<exists>st'. load_success res st = Completed st'"
proof -
  have "\<exists>r. RegExp_i (pattern_source fs) = Compiled r" if "list_all plain fs" for fs
    using that RegExp_i_pattern_source [of fs] RegExp_i_pattern_source_Nil by (cases "fs = []") auto
  from this [OF assms(1)] this [OF assms(2)] show ?thesis
    by (auto simp: load_success_def Let_def)
qed

lemma loaded_pattern_matches:
  assumes "load_success res st = Completed st'"
  shows "list_all plain (blacklist st') \<Longrightarrow> blacklist st' \<noteq> [] \<Longrightarrow>
           exec_matches uc (blacklistReg st') T = list_ex (\<lambda>f. contains_ci uc f T) (blacklist st')"
    and "list_all plain (whitelist st') \<Longrightarrow> whitelist st' \<noteq> [] \<Longrightarrow>
           exec_matches uc (whitelistReg st') T = list_ex (\<lambda>f. contains_ci uc f T) (whitelist st')"
    and "whitelist st' = [] \<Longrightarrow> exec_matches uc (whitelistReg st') T"
  using load_success_Completed(3,4) [OF assms]
  by (simp_all add: compiled_pattern_matches empty_pattern_matches)

lemma check_keeps_lists:
  "blacklist (snd (check uc value st)) = blacklist st
   \<and> whitelist (snd (check uc value st)) = whitelist st
   \<and> blacklistReg (snd (check uc value st)) = blacklistReg st
   \<and> whitelistReg (snd (check uc value st)) = whitelistReg st"
  by (auto simp: check_def log_def Let_def split: option.splits)

lemma load_badass:
  "\<exists>st. load_success badass_lists init = Completed st
     \<and> blacklist st = [str ''bad''] \<and> whitelist st = [str ''badass'']
     \<and> checkedTerms st = Map.empty"
proof -
  obtain st where st: "load_success badass_lists init = Completed st"
    using load_success_plain [of init badass_lists]
    by (auto simp: badass_lists_def init_def or_empty_def plain_examples)
  show ?thesis using st load_success_Completed(1,2,5) [OF st]
    by (simp add: badass_lists_def init_def or_empty_def)
qed

lemma load_badword:
  "\<exists>st. load_success badword_lists init = Completed st
     \<and> blacklist st = [str ''badword''] \<and> whitelist st = []
     \<and> checkedTerms st = Map.empty"
proof -
  obtain st where st: "load_success badword_lists init = Completed st"
    using load_success_plain [of init badword_lists]
    by (auto simp: badword_lists_def init_def or_empty_def plain_examples)
  show ?thesis using st load_success_Completed(1,2,5) [OF st]
    by (simp add: badword_lists_def init_def or_empty_def)
qed

lemma contains_examples:
  "contains_ci plain_table (str ''bad'') (str ''that is bAd'')"
  "\<not> contains_ci plain_table (str ''badass'') (str ''that is bAd'')"
  "contains_ci plain_table (str ''that'') (str ''that is bAd'')"
  "contains_ci plain_table (str ''bad'') (str ''he is a BadAss'')"
  "contains_ci plain_table (str ''badass'') (str ''he is a BadAss'')"
  "\<not> contains_ci plain_table (str ''bad'') (str ''fine'')"
  by (simp_all add: str_def Canonicalize_def toUpperCase1_def)

lemma check_uncached_verdict:
  assumes "T \<noteq> []" and "blacklist st \<noteq> []" and "checkedTerms st (hashCode T) = None"
  shows "fst (check uc (Some T) st) =
           (if exec_matches uc (blacklistReg st) T then exec_matches uc (whitelistReg st) T else True)"
  using assms by (simp add: check_def Let_def)

text \<open>
  C3. For a non-empty text, a non-empty blacklist and no cache entry under the hash of
  the text: when the blacklist pattern does not match the text, \<open>check\<close> returns true;
  when it matches, \<open>check\<close> returns what the whitelist pattern says of the text. The
  blacklist pattern is a search for any fragment as a substring, up to case: while it
  is the pattern compiled from the blacklist and the fragments are plain, it matches
  exactly the texts that contain one of them.
\<close>

theorem check_uncached:
  assumes "T \<noteq> []" and "blacklist st \<noteq> []" and "checkedTerms st (hashCode T) = None"
  shows "(\<not> exec_matches uc (blacklistReg st) T \<longrightarrow> fst (check uc (Some T) st) = True)
       \<and> (exec_matches uc (blacklistReg st) T \<longrightarrow>
            fst (check uc (Some T) st) = exec_matches uc (whitelistReg st) T)
       \<and> (list_all plain (blacklist st)
            \<and> RegExp_i (pattern_source (blacklist st)) = Compiled (blacklistReg st) \<longrightarrow>
            exec_matches uc (blacklistReg st) T
              = list_ex (\<lambda>f. contains_ci uc f T) (blacklist st))"
  using check_uncached_verdict [OF assms, of uc] compiled_pattern_matches [OF _ assms(2), of _ uc T]
  by simp

theorem check_uncached_witness:
  "\<exists>st. load_success badass_lists init = Completed st
     \<and> blacklist st \<noteq> []
     \<and> list_all plain (blacklist st)
     \<and> RegExp_i (pattern_source (blacklist st)) = Compiled (blacklistReg st)
     \<and> checkedTerms st (hashCode (str ''that is bAd'')) = None
     \<and> exec_matches plain_table (blacklistReg st) (str ''that is bAd'')
     \<and> \<not> exec_matches plain_table (whitelistReg st) (str ''that is bAd'')
     \<and> fst (check plain_table (Some (str ''that is bAd'')) st) = False
     \<and> exec_matches plain_table (whitelistReg st) (str ''he is a BadAss'')
     \<and> fst (check plain_table (Some (str ''he is a BadAss'')) st) = True
     \<and> \<not> exec_matches plain_table (blacklistReg st) (str ''fine'')
     \<and> fst (check plain_table (Some (str ''fine'')) st) = True"
proof -
  obtain st where st: "load_success badass_lists init = Completed st"
    and l: "blacklist st = [str ''bad'']" "whitelist st = [str ''badass'']"
    and c: "checkedTerms st = Map.empty"
    using load_badass by blast
  have p: "list_all plain (blacklist st)" by (simp add: l plain_examples)
  have r: "RegExp_i (pattern_source (blacklist st)) = Compiled (blacklistReg st)"
    using load_success_Completed(3) [OF st] .
  have w: "exec_matches plain_table (whitelistReg st) T = contains_ci plain_table (str ''badass'') T" for T
    using loaded_pattern_matches(2) [OF st, of plain_table T] by (simp add: l plain_examples)
  have n: "str ''that is bAd'' \<noteq> []" "str ''he is a BadAss'' \<noteq> []" "str ''fine'' \<noteq> []"
    by (simp_all add: str_def)
  have ne: "blacklist st \<noteq> []" by (simp add: l)
  have e: "checkedTerms st k = None" for k by (simp add: c)
  note a = check_uncached [OF n(1) ne e, of plain_table]
  note b = check_uncached [OF n(2) ne e, of plain_table]
  note d = check_uncached [OF n(3) ne e, of plain_table]
  have a3: "exec_matches plain_table (blacklistReg st) (str ''that is bAd'')"
    using a p r by (simp add: l contains_examples)
  have b3: "exec_matches plain_table (blacklistReg st) (str ''he is a BadAss'')"
    using b p r by (simp add: l contains_examples)
  have d3: "\<not> exec_matches plain_table (blacklistReg st) (str ''fine'')"
    using d p r by (simp add: l contains_examples)
  have "fst (check plain_table (Some (str ''that is bAd'')) st) = False"
    using a a3 by (simp add: w contains_examples)
  moreover have "fst (check plain_table (Some (str ''he is a BadAss'')) st) = True"
    using b b3 by (simp add: w contains_examples)
  moreover have "fst (check plain_table (Some (str ''fine'')) st) = True"
    using d d3 by simp
  ultimately show ?thesis
    using st ne p r e a3 d3 by (intro exI [of _ st]) (simp add: w contains_examples)
qed

text \<open>
  A load whose handler runs to its end appends the fetched blacklist and whitelist to
  the lists already held (an absent field adds nothing) and compiles both patterns
  anew from the lists so obtained. The patterns then agree with the lists: each is
  what the constructor makes of its list; while the fragments of a non-empty list are
  plain, its pattern matches exactly the texts that contain one of them, up to case;
  and \<open>check\<close> changes neither lists nor patterns.
\<close>

lemma load_success_appends_and_recompiles:
  assumes "load_success res st = Completed st'"
  shows "blacklist st' = blacklist st @ or_empty (res_blacklist res)
       \<and> whitelist st' = whitelist st @ or_empty (res_whitelist res)
       \<and> or_empty None = []
       \<and> RegExp_i (pattern_source (blacklist st')) = Compiled (blacklistReg st')
       \<and> RegExp_i (pattern_source (whitelist st')) = Compiled (whitelistReg st')
       \<and> (list_all plain (blacklist st') \<and> blacklist st' \<noteq> [] \<longrightarrow>
            (\<forall>T. exec_matches uc (blacklistReg st') T
                   = list_ex (\<lambda>f. contains_ci uc f T) (blacklist st')))
       \<and> (list_all plain (whitelist st') \<and> whitelist st' \<noteq> [] \<longrightarrow>
            (\<forall>T. exec_matches uc (whitelistReg st') T
                   = list_ex (\<lambda>f. contains_ci uc f T) (whitelist st')))
       \<and> (\<forall>value. blacklist (snd (check uc value st')) = blacklist st'
                 \<and> whitelist (snd (check uc value st')) = whitelist st'
                 \<and> blacklistReg (snd (check uc value st')) = blacklistReg st'
                 \<and> whitelistReg (snd (check uc value st')) = whitelistReg st')"
proof -
  have "blacklist st' = blacklist st @ or_empty (res_blacklist res)"
    and "whitelist st' = whitelist st @ or_empty (res_whitelist res)"
    and "RegExp_i (pattern_source (blacklist st')) = Compiled (blacklistReg st')"
    and "RegExp_i (pattern_source (whitelist st')) = Compiled (whitelistReg st')"
    using load_success_Completed [OF assms] by simp_all
  moreover have "or_empty None = []" by (simp add: or_empty_def)
  moreover have "list_all plain (blacklist st') \<and> blacklist st' \<noteq> [] \<longrightarrow>
            (\<forall>T. exec_matches uc (blacklistReg st') T
                   = list_ex (\<lambda>f. contains_ci uc f T) (blacklist st'))"
    using loaded_pattern_matches(1) [OF assms] by blast
  moreover have "list_all plain (whitelist st') \<and> whitelist st' \<noteq> [] \<longrightarrow>
            (\<forall>T. exec_matches uc (whitelistReg st') T
                   = list_ex (\<lambda>f. contains_ci uc f T) (whitelist st'))"
    using loaded_pattern_matches(2) [OF assms] by blast
  ultimately show ?thesis using check_keeps_lists [of uc _ st'] by blast
qed

lemma load_success_appends_and_recompiles_example:
  "\<exists>st st2. load_success badass_lists init = Completed st
     \<and> load_success badword_only st = Completed st2
     \<and> blacklist st = [str ''bad''] \<and> whitelist st = [str ''badass'']
     \<and> blacklist st2 = [str ''bad'', str ''badword''] \<and> whitelist st2 = [str ''badass'']
     \<and> RegExp_i (pattern_source [str ''bad'', str ''badword'']) = Compiled (blacklistReg st2)
     \<and> RegExp_i (pattern_source [str ''badass'']) = Compiled (whitelistReg st2)
     \<and> list_all plain (blacklist st2) \<and> list_all plain (whitelist st2)
     \<and> exec_matches plain_table (blacklistReg st2) (str ''that is bAd'')
     \<and> \<not> exec_matches plain_table (whitelistReg st2) (str ''that is bAd'')
     \<and> blacklistReg (snd (check plain_table (Some (str ''that is bAd'')) st2)) = blacklistReg st2"
proof -
  obtain st where st: "load_success badass_lists init = Completed st"
    and l: "blacklist st = [str ''bad'']" "whitelist st = [str ''badass'']"
    using load_badass by blast
  obtain st2 where st2: "load_success badword_only st = Completed st2"
    using load_success_plain [of st badword_only]
    by (auto simp: badword_only_def l or_empty_def plain_examples)
  note inst = load_success_appends_and_recompiles [OF st2, of plain_table]
  have l2: "blacklist st2 = [str ''bad'', str ''badword'']" "whitelist st2 = [str ''badass'']"
    using inst by (simp_all add: l badword_only_def or_empty_def)
  have p: "list_all plain (blacklist st2)" "list_all plain (whitelist st2)"
    by (simp_all add: l2 plain_examples)
  have ne: "blacklist st2 \<noteq> []" "whitelist st2 \<noteq> []"
    by (simp_all add: l2)
  have r: "RegExp_i (pattern_source (blacklist st2)) = Compiled (blacklistReg st2)"
    "RegExp_i (pattern_source (whitelist st2)) = Compiled (whitelistReg st2)"
    using inst by blast+
  have "exec_matches plain_table (blacklistReg st2) (str ''that is bAd'')
          = list_ex (\<lambda>f. contains_ci plain_table f (str ''that is bAd'')) (blacklist st2)"
    using inst p(1) ne(1) by blast
  then have b: "exec_matches plain_table (blacklistReg st2) (str ''that is bAd'')"
    by (simp add: l2 contains_examples)
  have "exec_matches plain_table (whitelistReg st2) (str ''that is bAd'')
          = list_ex (\<lambda>f. contains_ci plain_table f (str ''that is bAd'')) (whitelist st2)"
    using inst p(2) ne(2) by blast
  then have w: "\<not> exec_matches plain_table (whitelistReg st2) (str ''that is bAd'')"
    by (simp add: l2 contains_examples)
  have k: "blacklistReg (snd (check plain_table (Some (str ''that is bAd'')) st2)) = blacklistReg st2"
    using inst by blast
  show ?thesis
    using st st2 l l2 p r b w k by (intro exI [of _ st] exI [of _ st2]) simp
qed

text \<open>
  A load whose handler runs to its end leaves the result cache empty, and the service
  after the load does not depend on what the cache held before: whatever was cached,
  the load ends in the same state, so no later \<open>check\<close> can return a verdict cached
  before the load. The first \<open>check\<close> of a text after the load computes its verdict
  from the new patterns.
\<close>

lemma load_success_clears_cache:
  assumes "load_success res st = Completed st'"
  shows "checkedTerms st' = Map.empty
       \<and> (\<forall>c. load_success res (st\<lparr>checkedTerms := c\<rparr>) = Completed st')
       \<and> (\<forall>T. T \<noteq> [] \<and> blacklist st' \<noteq> [] \<longrightarrow>
             \<not> cache_hit (Some T) st'
             \<and> fst (check uc (Some T) st') =
                 (if exec_matches uc (blacklistReg st') T
                  then exec_matches uc (whitelistReg st') T else True))"
proof -
  have e: "checkedTerms st' = Map.empty" using load_success_Completed(5) [OF assms] .
  have "load_success res (st\<lparr>checkedTerms := c\<rparr>) = Completed st'" for c
    using assms by (auto simp: load_success_def Let_def split: construction.splits)
  moreover have "fst (check uc (Some T) st') =
                 (if exec_matches uc (blacklistReg st') T
                  then exec_matches uc (whitelistReg st') T else True)"
    if "T \<noteq> []" "blacklist st' \<noteq> []" for T
    using check_uncached_verdict [OF that, of uc] e by simp
  moreover have "\<not> cache_hit (Some T) st'" for T by (simp add: cache_hit_def e)
  ultimately show ?thesis using e by blast
qed

lemma load_success_clears_cache_example:
  "\<exists>st st1 st2. load_success badass_lists init = Completed st
     \<and> check plain_table (Some (str ''that is bAd'')) st = (False, st1)
     \<and> checkedTerms st1 (hashCode (str ''that is bAd'')) = Some False
     \<and> load_success that_only st1 = Completed st2
     \<and> checkedTerms st2 = Map.empty
     \<and> blacklist st2 \<noteq> []
     \<and> fst (check plain_table (Some (str ''that is bAd'')) st2) = True"
proof -
  obtain st where st: "load_success badass_lists init = Completed st"
    and l: "blacklist st = [str ''bad'']" "whitelist st = [str ''badass'']"
    and c: "checkedTerms st = Map.empty"
    using load_badass by blast
  have n: "str ''that is bAd'' \<noteq> []" by (simp add: str_def)
  have v: "fst (check plain_table (Some (str ''that is bAd'')) st) = False"
    using check_uncached_verdict [of "str ''that is bAd''" st plain_table]
      loaded_pattern_matches(1,2) [OF st, of plain_table "str ''that is bAd''"]
    by (simp add: n l c plain_examples contains_examples)
  define st1 where "st1 = snd (check plain_table (Some (str ''that is bAd'')) st)"
  have k: "check plain_table (Some (str ''that is bAd'')) st = (False, st1)"
    using v by (simp add: st1_def prod_eq_iff)
  have c1: "checkedTerms st1 (hashCode (str ''that is bAd'')) = Some False"
    using v unfolding st1_def by (simp add: check_def Let_def n l c log_def)
  have l1: "blacklist st1 = [str ''bad'']" "whitelist st1 = [str ''badass'']"
    using check_keeps_lists [of plain_table "Some (str ''that is bAd'')" st] l
    by (simp_all add: st1_def)
  obtain st2 where st2: "load_success that_only st1 = Completed st2"
    using load_success_plain [of st1 that_only]
    by (auto simp: that_only_def l1 or_empty_def plain_examples)
  have l2: "blacklist st2 = [str ''bad'']" "whitelist st2 = [str ''badass'', str ''that'']"
    using load_success_Completed(1,2) [OF st2] by (simp_all add: l1 that_only_def or_empty_def)
  have m: "exec_matches plain_table (blacklistReg st2) (str ''that is bAd'')"
    "exec_matches plain_table (whitelistReg st2) (str ''that is bAd'')"
    using loaded_pattern_matches(1,2) [OF st2, of plain_table "str ''that is bAd''"]
    by (simp_all add: l2 plain_examples contains_examples)
  show ?thesis
    using st k c1 st2 load_success_clears_cache [OF st2, of plain_table]
    by (simp add: l2 n m)
qed

section \<open>When the constructor throws\<close>

text \<open>
  When a constructor throws, the lists have already been extended, the pattern whose
  construction failed and everything after it are as before, and the cache is not
  cleared. The file \<open>smiley_lists\<close> is an example.
\<close>

lemma load_success_Threw:
  assumes "load_success res st = Threw st'"
  shows "blacklist st' = blacklist st @ or_empty (res_blacklist res)"
    and "whitelist st' = whitelist st @ or_empty (res_whitelist res)"
    and "whitelistReg st' = whitelistReg st"
    and "checkedTerms st' = checkedTerms st"
    and "(RegExp_i (pattern_source (blacklist st')) = SyntaxError \<and> blacklistReg st' = blacklistReg st)
         \<or> (RegExp_i (pattern_source (blacklist st')) = Compiled (blacklistReg st')
             \<and> RegExp_i (pattern_source (whitelist st')) = SyntaxError)"
  using assms by (auto simp: load_success_def Let_def split: construction.splits)

lemma RegExp_i_smiley: "RegExp_i (pattern_source [str '':('']) = SyntaxError"
  by (simp add: RegExp_i_def pattern_source_def str_def SyntaxCharacter_def)

lemma load_smiley:
  "load_success smiley_lists init
     = Threw (init\<lparr>blacklist := [str '':(''], whitelist := [str ''that'']\<rparr>)"
  by (simp add: load_success_def smiley_lists_def or_empty_def init_def RegExp_i_smiley)

section \<open>Checking the same text twice\<close>

lemma check_guard:
  "value = None \<or> value = Some [] \<or> blacklist st = [] \<Longrightarrow> check uc value st = (True, st)"
  by (auto simp: check_def split: option.splits)

lemma no_hit_at_guard:
  "value = None \<or> value = Some [] \<or> blacklist st = [] \<Longrightarrow> \<not> cache_hit value st"
  by (auto simp: cache_hit_def split: option.splits)

lemma check_again:
  "check uc value (snd (check uc value st)) =
     (if value = None \<or> value = Some [] \<or> blacklist st = [] then (True, st)
      else (fst (check uc value st), log (str ''Returning old cached value'') (snd (check uc value st))))"
  by (auto simp: check_def log_def Let_def split: option.splits)

lemma check_caches:
  "T \<noteq> [] \<Longrightarrow> blacklist st \<noteq> [] \<Longrightarrow>
   checkedTerms (snd (check uc (Some T) st)) (hashCode T) = Some (fst (check uc (Some T) st))"
  by (auto simp: check_def log_def Let_def split: option.splits)

text \<open>
  C7, as stated: for every text and every state, the second of two calls in a row is
  answered from the result cache. Before any list is loaded the blacklist is empty,
  \<open>check\<close> returns true through its guard, and the cache holds nothing for the text
  after the first call: the second call is not answered from it.
\<close>

theorem check_twice_counterexample:
  "\<not> cache_hit (Some (str ''clean text''))
        (snd (check plain_table (Some (str ''clean text'')) init))
   \<and> checkedTerms (snd (check plain_table (Some (str ''clean text'')) init))
        (hashCode (str ''clean text'')) = None
   \<and> \<not> cache_hit (Some []) (snd (check plain_table (Some []) init))
   \<and> \<not> cache_hit None (snd (check plain_table None init))"
  by (simp add: check_def cache_hit_def init_def)

text \<open>
  C7, amended. Two calls of \<open>check\<close> on the same text in a row return the same verdict.
  When the text is not empty and the blacklist is not empty, the first call leaves
  the verdict in the cache under the hash of the text, and the second call returns
  that entry (true or false) and logs the cache hit. Otherwise both calls return true
  through the guard and the cache is neither read nor written.
\<close>

theorem check_twice:
  "fst (check uc value (snd (check uc value st))) = fst (check uc value st)
   \<and> (\<forall>T. value = Some T \<and> T \<noteq> [] \<and> blacklist st \<noteq> [] \<longrightarrow>
         cache_hit value (snd (check uc value st))
         \<and> checkedTerms (snd (check uc value st)) (hashCode T) = Some (fst (check uc value st))
         \<and> check uc value (snd (check uc value st)) =
             (fst (check uc value st),
              log (str ''Returning old cached value'') (snd (check uc value st))))
   \<and> (value = None \<or> value = Some [] \<or> blacklist st = [] \<longrightarrow>
         check uc value st = (True, st)
         \<and> check uc value (snd (check uc value st)) = (True, st)
         \<and> \<not> cache_hit value (snd (check uc value st)))"
proof -
  have same: "fst (check uc value (snd (check uc value st))) = fst (check uc value st)"
    unfolding check_again by (auto simp: check_def split: option.splits)
  have hit: "cache_hit value (snd (check uc value st))
         \<and> checkedTerms (snd (check uc value st)) (hashCode T) = Some (fst (check uc value st))
         \<and> check uc value (snd (check uc value st)) =
             (fst (check uc value st),
              log (str ''Returning old cached value'') (snd (check uc value st)))"
    if "value = Some T" "T \<noteq> []" "blacklist st \<noteq> []" for T
    using that check_caches [of T st uc] check_keeps_lists [of uc "Some T" st]
    by (simp add: check_again cache_hit_def)
  have guard: "check uc value st = (True, st)
         \<and> check uc value (snd (check uc value st)) = (True, st)
         \<and> \<not> cache_hit value (snd (check uc value st))"
    if "value = None \<or> value = Some [] \<or> blacklist st = []"
    using check_guard [OF that, of uc] no_hit_at_guard [OF that] by simp
  show ?thesis
  proof (intro conjI allI impI)
    show "fst (check uc value (snd (check uc value st))) = fst (check uc value st)" by (rule same)
  next
    fix T assume a: "value = Some T \<and> T \<noteq> [] \<and> blacklist st \<noteq> []"
    then have h: "value = Some T" "T \<noteq> []" "blacklist st \<noteq> []" by simp_all
    show "cache_hit value (snd (check uc value st))" using hit [OF h] by (rule conjunct1)
    show "checkedTerms (snd (check uc value st)) (hashCode T) = Some (fst (check uc value st))"
      using hit [OF h] by (elim conjE)
    show "check uc value (snd (check uc value st)) =
             (fst (check uc value st),
              log (str ''Returning old cached value'') (snd (check uc value st)))"
      using hit [OF h] by (elim conjE)
  next
    assume g: "value = None \<or> value = Some [] \<or> blacklist st = []"
    show "check uc value st = (True, st)" using guard [OF g] by (rule conjunct1)
    show "check uc value (snd (check uc value st)) = (True, st)" using guard [OF g] by (elim conjE)
    show "\<not> cache_hit value (snd (check uc value st))" using guard [OF g] by (elim conjE)
  qed
qed

theorem check_twice_witness:
  "\<exists>st. load_success badass_lists init = Completed st
     \<and> str ''that is bAd'' \<noteq> [] \<and> blacklist st \<noteq> []
     \<and> fst (check plain_table (Some (str ''that is bAd'')) st) = False
     \<and> cache_hit (Some (str ''that is bAd'')) (snd (check plain_table (Some (str ''that is bAd'')) st))
     \<and> fst (check plain_table (Some (str ''that is bAd''))
              (snd (check plain_table (Some (str ''that is bAd'')) st))) = False
     \<and> check plain_table None (snd (check plain_table None st)) = (True, st)"
proof -
  obtain st where st: "load_success badass_lists init = Completed st"
    and l: "blacklist st = [str ''bad'']" "whitelist st = [str ''badass'']"
    and c: "checkedTerms st = Map.empty"
    using load_badass by blast
  have n: "str ''that is bAd'' \<noteq> []" by (simp add: str_def)
  have v: "fst (check plain_table (Some (str ''that is bAd'')) st) = False"
    using check_uncached_verdict [of "str ''that is bAd''" st plain_table]
      loaded_pattern_matches(1,2) [OF st, of plain_table "str ''that is bAd''"]
    by (simp add: n l c plain_examples contains_examples)
  have ne: "blacklist st \<noteq> []" by (simp add: l)
  show ?thesis
    using st n ne v check_twice [of plain_table "Some (str ''that is bAd'')" st]
      check_twice [of plain_table None st]
    by (intro exI [of _ st]) simp
qed

section \<open>An empty whitelist\<close>

text \<open>
  Before the lists are loaded the blacklist is empty: every \<open>check\<close> returns true and
  changes nothing, so the handler of the one \<open>$http.get\<close> call finds the service as it
  was created.
\<close>

lemma checks_before_load:
  "blacklist st = [] \<Longrightarrow> checks uc xs st = (replicate (length xs) True, st)"
  by (induction xs) (simp_all add: check_guard)

lemma check_true_invariant:
  assumes "\<forall>T. exec_matches uc (whitelistReg st) T"
      and "\<forall>k b. checkedTerms st k = Some b \<longrightarrow> b"
  shows "fst (check uc x st)"
    and "\<forall>T. exec_matches uc (whitelistReg (snd (check uc x st))) T"
    and "\<forall>k b. checkedTerms (snd (check uc x st)) k = Some b \<longrightarrow> b"
  using assms by (auto simp: check_def log_def Let_def split: option.splits if_splits)

lemma checks_all_true:
  assumes "\<forall>T. exec_matches uc (whitelistReg st) T"
      and "\<forall>k b. checkedTerms st k = Some b \<longrightarrow> b"
  shows "list_all (\<lambda>b. b) (fst (checks uc xs st))"
  using assms
proof (induction xs arbitrary: st)
  case Nil
  show ?case by simp
next
  case (Cons x xs)
  note inv = check_true_invariant [OF Cons.prems, of x]
  have "list_all (\<lambda>b. b) (fst (checks uc xs (snd (check uc x st))))"
    using Cons.IH [OF inv(2,3)] .
  with inv(1) show ?case by (simp add: case_prod_unfold Let_def)
qed

lemma empty_whitelist_load:
  assumes "load_success res st = Completed st'" and "whitelist st = []"
      and "res_whitelist res = None \<or> res_whitelist res = Some []"
  shows "\<forall>T. exec_matches uc (whitelistReg st') T"
    and "fst (check uc x st')"
    and "list_all (\<lambda>b. b) (fst (checks uc xs st'))"
proof -
  have w: "whitelist st' = []"
    using load_success_Completed(2) [OF assms(1)] assms(2,3) by (auto simp: or_empty_def)
  show m: "\<forall>T. exec_matches uc (whitelistReg st') T"
    using loaded_pattern_matches(3) [OF assms(1) w] by blast
  have c: "\<forall>k b. checkedTerms st' k = Some b \<longrightarrow> b"
    using load_success_Completed(5) [OF assms(1)] by simp
  show "fst (check uc x st')" using check_true_invariant(1) [OF m c] .
  show "list_all (\<lambda>b. b) (fst (checks uc xs st'))" using checks_all_true [OF m c] .
qed

lemma contains_badword:
  "contains_ci uc (str ''badword'') (str ''this is a badword here'')"
  "\<not> contains_ci uc (str ''badword'') (str ''clean text'')"
  by (simp_all add: str_def Canonicalize_def toUpperCase1_def)

text \<open>
  C10. After a successful load that leaves the whitelist empty (no whitelist fragment
  was held before, as at the service's one \<open>$http.get\<close>, and the whitelist field is
  absent or empty), the whitelist pattern is compiled from zero fragments and matches
  every string; every \<open>check\<close> from then on returns true, also for a text that
  contains a fragment of a non-empty blacklist.
\<close>

theorem empty_whitelist_accepts_everything:
  assumes "load_success res st = Completed st'" and "whitelist st = []"
      and "res_whitelist res = None \<or> res_whitelist res = Some []"
  shows "(\<forall>T. exec_matches uc (whitelistReg st') T)
       \<and> (\<forall>T. fst (check uc (Some T) st') = True)
       \<and> (\<forall>xs. list_all (\<lambda>b. b) (fst (checks uc xs st')))"
  using empty_whitelist_load [OF assms, of uc] by simp

theorem empty_whitelist_accepts_everything_witness:
  "\<exists>st st2. load_success badword_only init = Completed st
     \<and> load_success badword_lists init = Completed st2
     \<and> whitelist init = []
     \<and> res_whitelist badword_only = None \<and> res_whitelist badword_lists = Some []
     \<and> blacklist st \<noteq> [] \<and> blacklist st2 \<noteq> []
     \<and> exec_matches plain_table (blacklistReg st) (str ''this is a badword here'')
     \<and> exec_matches plain_table (whitelistReg st) (str ''this is a badword here'')
     \<and> fst (check plain_table (Some (str ''this is a badword here'')) st) = True
     \<and> fst (check plain_table (Some (str ''this is a badword here'')) st2) = True"
proof -
  obtain st where st: "load_success badword_only init = Completed st"
    using load_success_plain [of init badword_only]
    by (auto simp: badword_only_def init_def or_empty_def plain_examples)
  obtain st2 where st2: "load_success badword_lists init = Completed st2"
    and l2: "blacklist st2 = [str ''badword'']"
    using load_badword by blast
  have l: "blacklist st = [str ''badword'']"
    using load_success_Completed(1) [OF st] by (simp add: badword_only_def init_def or_empty_def)
  have b: "exec_matches plain_table (blacklistReg st) (str ''this is a badword here'')"
    using loaded_pattern_matches(1) [OF st, of plain_table "str ''this is a badword here''"]
    by (simp add: l plain_examples contains_badword)
  have h: "whitelist init = []" "res_whitelist badword_only = None"
    "res_whitelist badword_lists = Some []"
    by (simp_all add: init_def badword_only_def badword_lists_def)
  have h3: "res_whitelist badword_only = None \<or> res_whitelist badword_only = Some []"
    using h(2) by simp
  have h4: "res_whitelist badword_lists = None \<or> res_whitelist badword_lists = Some []"
    using h(3) by simp
  show ?thesis
    using st st2 h l l2 b
      empty_whitelist_accepts_everything [OF st h(1) h3, of plain_table]
      empty_whitelist_accepts_everything [OF st2 h(1) h4, of plain_table]
    by (intro exI [of _ st] exI [of _ st2]) simp
qed

section \<open>The scenario with an empty whitelist, on the code\<close>

text \<open>
  C1 on the code. With the blacklist \<open>["badword"]\<close> and the whitelist \<open>[]\<close> loaded, the
  blacklist pattern matches \<open>"this is a badword here"\<close>, and \<open>check\<close> returns true for
  it, as it does for \<open>"clean text"\<close>.
\<close>

theorem badword_scenario_on_the_code:
  "\<exists>st. load_success badword_lists init = Completed st
     \<and> exec_matches uc (blacklistReg st) (str ''this is a badword here'')
     \<and> fst (check uc (Some (str ''this is a badword here'')) st) = True
     \<and> fst (check uc (Some (str ''clean text'')) st) = True"
proof -
  obtain st where st: "load_success badword_lists init = Completed st"
    and l: "blacklist st = [str ''badword'']" "whitelist st = []"
    using load_badword by blast
  have b: "exec_matches uc (blacklistReg st) (str ''this is a badword here'')"
    using loaded_pattern_matches(1) [OF st, of uc "str ''this is a badword here''"]
    by (simp add: l plain_examples contains_badword)
  have w: "\<forall>T. exec_matches uc (whitelistReg st) T"
    using loaded_pattern_matches(3) [OF st l(2)] by blast
  have c: "\<forall>k b. checkedTerms st k = Some b \<longrightarrow> b"
    using load_success_Completed(5) [OF st] by simp
  have "fst (check uc x st)" for x
    using check_true_invariant(1) [OF w c] .
  with st b show ?thesis by (intro exI [of _ st]) simp
qed

text \<open>
  C2 on the code. The pattern compiled from no fragment, \<open>(?:)\<close>, matches every
  string, and so do the patterns the service starts with.
\<close>

theorem empty_pattern_on_the_code:
  "(\<exists>r. RegExp_i (pattern_source []) = Compiled r \<and> (\<forall>T. exec_matches uc r T))
   \<and> (\<forall>T. exec_matches uc (blacklistReg init) T)
   \<and> (\<forall>T. exec_matches uc (whitelistReg init) T)"
proof -
  have 1: "exec_matches uc (Cat Empty Empty) T" for T
    by (rule exec_matches_always) (simp add: match_here_def)
  have 2: "exec_matches uc Empty T" for T
    by (rule exec_matches_always) (simp add: match_here_def)
  have 3: "blacklistReg init = Empty" "whitelistReg init = Empty"
    by (simp_all add: init_def RegExp_i_empty)
  show ?thesis unfolding 3 RegExp_i_pattern_source_Nil using 1 2 by blast
qed

section \<open>Loads that throw, on the code\<close>


lemma contains_xray:
  "\<not> contains_ci uc (str ''bad'') (str ''x-ray'')"
  "\<not> contains_ci uc (str ''badass'') (str ''x-ray'')"
  "contains_ci uc (str ''x-ray'') (str ''x-ray'')"
  "plain (str ''x-ray'')" "str ''x-ray'' \<noteq> []"
  "\<not> contains_ci uc (str ''that'') (str ''fine'')"
  by (simp_all add: str_def Canonicalize_def toUpperCase1_def plain_def syntax_codes)




text \<open>
  C5 on the code. The success handler runs on the freshly created service with the
  blacklist \<open>[":("]\<close> and the whitelist \<open>["that"]\<close>. Both lists are appended, the
  constructor throws on the blacklist source, and neither pattern is compiled anew:
  both are still the patterns the service started with. The whitelist pattern matches
  \<open>"fine"\<close>, which contains no fragment of the whitelist, and is not what the
  constructor makes of the whitelist.
\<close>

theorem throwing_load_on_the_code:
  "load_success smiley_lists init
     = Threw (init\<lparr>blacklist := [str '':(''], whitelist := [str ''that'']\<rparr>)
   \<and> RegExp_i (pattern_source (blacklist (state_after (load_success smiley_lists init))))
       = SyntaxError
   \<and> blacklistReg (state_after (load_success smiley_lists init)) = blacklistReg init
   \<and> whitelistReg (state_after (load_success smiley_lists init)) = whitelistReg init
   \<and> RegExp_i (pattern_source (whitelist (state_after (load_success smiley_lists init))))
       \<noteq> Compiled (whitelistReg (state_after (load_success smiley_lists init)))
   \<and> exec_matches uc (whitelistReg (state_after (load_success smiley_lists init))) (str ''fine'')
   \<and> \<not> list_ex (\<lambda>f. contains_ci uc f (str ''fine''))
            (whitelist (state_after (load_success smiley_lists init)))"
proof -
  have w: "RegExp_i (pattern_source [str ''that''])
      = Compiled (Cat Empty (close_frame (alt_frame None [str ''that''])))"
    using RegExp_i_pattern_source [of "[str ''that'']"] by (simp add: plain_examples)
  have i: "whitelistReg init = Empty" by (simp add: init_def RegExp_i_empty)
  have m: "exec_matches uc Empty (str ''fine'')"
    by (rule exec_matches_always) (simp add: match_here_def)
  show ?thesis
    by (simp add: load_smiley RegExp_i_smiley w i m contains_xray)
qed


end
